theory Spec2Isabelle
  imports Main "HOL-Library.Word"
begin

section \<open>The data model of database.go\<close>

text \<open>
  Go's \<open>int\<close> is the 64-bit two's complement integer of the usual build targets:
  \<open>+\<close> on \<open>64 word\<close> wraps exactly as \<open>e.revision++\<close> and \<open>e.revision+1\<close> do, and
  \<open>sint\<close> reads the signed value.

  A channel value is either \<open>nil\<close> or a reference to a channel object; the object is
  named by the number under which it was allocated. The buffer of the object lives in
  the heap part of the state (\<open>queues\<close>, \<open>caps\<close>), so that two references to one
  channel share one buffer.
\<close>

datatype chan = NilChan | Chan nat

record Update =
  Key :: string
  Value :: string
  Revision :: "64 word"

record entry =
  val :: string
  revision :: "64 word"

record subscriber =
  path :: string
  ch :: chan

text \<open>The run-time panics the engine's code can raise.\<close>

datatype error =
    InvalidKey    \<comment> \<open>\<open>panic("invalid key")\<close> in \<open>validate\<close>\<close>
  | SliceBounds   \<comment> \<open>slice bounds out of range, \<open>part[:len(part)-1]\<close> on the empty string\<close>
  | ChanSize      \<comment> \<open>\<open>make(chan Update, n)\<close> with \<open>n\<close> negative or out of range\<close>

text \<open>
  The struct \<open>Database\<close>. The three maps and the two settings are the fields of the
  source. The request channels \<open>chGet\<close>, ..., \<open>chStop\<close> only carry the calls to the
  dispatch loop, which serves them one at a time; here every exported operation is
  the request together with the case of \<open>dispatch\<close> that serves it.

  Three further fields are the part of the Go heap and scheduler the engine touches:
  \<open>queues i\<close> is the content of the buffer of channel \<open>i\<close>, oldest event first, \<open>caps i\<close>
  its capacity, \<open>nextch\<close> the number of channels allocated so far, and \<open>expiring\<close> lists
  the keys for which \<open>go d.expire(key)\<close> has been started, latest first. No code of
  the repository closes a subscriber channel, so channels have no closed state.
\<close>

record Database =
  values_map :: "string \<rightharpoonup> entry"
  subscriptions :: "string \<rightharpoonup> chan set"
  subscribers :: "chan \<rightharpoonup> subscriber"
  buflen :: int
  expiry :: int
  queues :: "nat \<Rightarrow> Update list"
  caps :: "nat \<Rightarrow> nat"
  nextch :: nat
  expiring :: "string list"

definition defaultBuflen :: int where
  "defaultBuflen = 64"

definition defaultExpiry :: int where
  "defaultExpiry = 3600000000000 * 24 * 7"

definition zero_entry :: entry where
  "zero_entry = \<lparr>val = [], revision = 0\<rparr>"

definition zero_subscriber :: subscriber where
  "zero_subscriber = \<lparr>path = [], ch = NilChan\<rparr>"

definition NewDatabase :: "int \<Rightarrow> int \<Rightarrow> Database" where
  "NewDatabase buflen0 expiry0 =
     \<lparr>values_map = Map.empty,
      subscriptions = Map.empty,
      subscribers = Map.empty,
      buflen = (if buflen0 = 0 then defaultBuflen else buflen0),
      expiry = (if expiry0 = 0 then defaultExpiry else expiry0),
      queues = (\<lambda>i. []),
      caps = (\<lambda>i. 0),
      nextch = 0,
      expiring = []\<rparr>"

section \<open>The notifier\<close>

text \<open>
  \<open>strings.LastIndexByte(s, c)\<close> of Go's standard library: the index of the last
  instance of \<open>c\<close> in \<open>s\<close>, or -1 when \<open>c\<close> is not in \<open>s\<close>. It scans from the end.
\<close>

fun last_index_from :: "nat \<Rightarrow> string \<Rightarrow> char \<Rightarrow> int" where
  "last_index_from 0 s c = - 1"
| "last_index_from (Suc i) s c = (if s ! i = c then int i else last_index_from i s c)"

definition LastIndexByte :: "string \<Rightarrow> char \<Rightarrow> int" where
  "LastIndexByte s c = last_index_from (length s) s c"

text \<open>
  The non-blocking send \<open>select { case s <- u: default: }\<close> on a buffer \<open>q\<close> of
  capacity \<open>n\<close>: the event is appended when there is room and dropped otherwise.
  (A channel of capacity 0 would hand an event to a receiver that is already waiting;
  \<open>NewDatabase\<close> replaces a buffer length of 0 by 64, so \<open>Subscribe\<close> makes no such
  channel.)
\<close>

definition try_send :: "nat \<Rightarrow> Update list \<Rightarrow> Update \<Rightarrow> Update list" where
  "try_send n q u = (if length q < n then q @ [u] else q)"

text \<open>
  The sends of one \<open>for s := range m\<close> loop to the channels \<open>new\<close> that pass the
  \<open>seen\<close> test. The channels of one map are distinct and a send touches the buffer of
  its own channel only, so the order in which \<open>range\<close> yields them does not show in
  the result. A send on the \<open>nil\<close> channel is never ready: \<open>default\<close> is taken.
\<close>

definition deliver :: "Database \<Rightarrow> chan set \<Rightarrow> Update \<Rightarrow> Database" where
  "deliver d new u =
     d\<lparr>queues := (\<lambda>i. if Chan i \<in> new then try_send (caps d i) (queues d i) u
                       else queues d i)\<rparr>"

text \<open>The subscribers found by \<open>m, ok := d.subscriptions[part]\<close>; none when \<open>ok\<close> is false.\<close>

definition chans_at :: "Database \<Rightarrow> string \<Rightarrow> chan set" where
  "chans_at d part = (case subscriptions d part of None \<Rightarrow> {} | Some m \<Rightarrow> m)"

text \<open>
  The first statement of the loop body of \<open>notify\<close> (lines 203 to 213): every channel
  registered at \<open>part\<close> and not yet in \<open>seen\<close> is added to \<open>seen\<close> and sent the event.
\<close>

definition visit :: "Update \<Rightarrow> string \<Rightarrow> Database \<times> chan set \<Rightarrow> Database \<times> chan set" where
  "visit u part st =
     (case st of (d, seen) \<Rightarrow>
        (deliver d (chans_at d part - seen) u, seen \<union> chans_at d part))"

lemma last_index_from_less: "last_index_from n s c < int n"
  by (induction n) auto

lemma LastIndexByte_less: "LastIndexByte s c < int (length s)"
  by (simp add: LastIndexByte_def last_index_from_less)

lemma truncate_shorter:
  assumes "length part \<noteq> 0"
  shows "nat (LastIndexByte (take (length part - 1) part) c + 1) < length part"
proof -
  have "LastIndexByte (take (length part - 1) part) c < int (length part - 1)"
    using LastIndexByte_less [of "take (length part - 1) part" c] by simp
  with assms show ?thesis by linarith
qed

text \<open>
  The loop of \<open>notify\<close>. The slice \<open>part[:len(part)-1]\<close> panics when \<open>part\<close> is empty;
  otherwise the loop ends when the slice holds no slash, and goes on with
  \<open>part[:slash+1]\<close> when it does.
\<close>

function notify_loop :: "Database \<Rightarrow> chan set \<Rightarrow> string \<Rightarrow> Update \<Rightarrow> error + Database" where
  "notify_loop d seen part u =
     (if length part = 0 then Inl SliceBounds
      else if LastIndexByte (take (length part - 1) part) (CHR ''/'') = - 1
        then Inr (fst (visit u part (d, seen)))
      else notify_loop (fst (visit u part (d, seen))) (snd (visit u part (d, seen)))
             (take (nat (LastIndexByte (take (length part - 1) part) (CHR ''/'') + 1)) part) u)"
  by pat_completeness auto
termination
proof (relation "measure (\<lambda>(d, seen, part, u). length part)")
  fix d :: Database and seen :: "chan set" and part :: string and u :: Update
  assume "length part \<noteq> 0"
  then show "((fst (visit u part (d, seen)), snd (visit u part (d, seen)),
        take (nat (LastIndexByte (take (length part - 1) part) (CHR ''/'') + 1)) part, u),
      (d, seen, part, u)) \<in> measure (\<lambda>(d, seen, part, u). length part)"
    using truncate_shorter [of part "CHR ''/''"] by simp
qed simp

declare notify_loop.simps [simp del]

text \<open>The event \<open>Update{Key: key, Value: e.value, Revision: e.revision}\<close>.\<close>

definition event :: "string \<Rightarrow> entry \<Rightarrow> Update" where
  "event key e = \<lparr>Key = key, Value = val e, Revision = revision e\<rparr>"

definition notify :: "Database \<Rightarrow> string \<Rightarrow> entry \<Rightarrow> error + Database" where
  "notify d key e = notify_loop d {} key (event key e)"

text \<open>
  The values \<open>part\<close> takes at the lookup \<open>d.subscriptions[part]\<close> of line 203, in the
  order of the loop: the same truncation as in \<open>notify_loop\<close>, without the sends. On
  the empty string the lookup is made once, before the slice panics.
\<close>

function checked :: "string \<Rightarrow> string list" where
  "checked part =
     (if length part = 0 then [part]
      else if LastIndexByte (take (length part - 1) part) (CHR ''/'') = - 1 then [part]
      else part #
        checked (take (nat (LastIndexByte (take (length part - 1) part) (CHR ''/'') + 1)) part))"
  by pat_completeness auto
termination
proof (relation "measure length")
  fix part :: string
  assume "length part \<noteq> 0"
  then show "(take (nat (LastIndexByte (take (length part - 1) part) (CHR ''/'') + 1)) part, part)
      \<in> measure length"
    using truncate_shorter [of part "CHR ''/''"] by simp
qed simp

declare checked.simps [simp del]

section \<open>The engine\<close>

definition get :: "Database \<Rightarrow> string \<Rightarrow> entry \<times> bool" where
  "get d key = (case values_map d key of None \<Rightarrow> (zero_entry, False) | Some e \<Rightarrow> (e, True))"

text \<open>
  \<open>set\<close>: an existing entry has its revision incremented; for a new key the entry is
  the zero entry, of revision 0, and the expiry task of the key is started.
\<close>

definition set_d :: "Database \<Rightarrow> string \<Rightarrow> string \<Rightarrow> error + Database" where
  "set_d d key v =
     (case get d key of (e, ok) \<Rightarrow>
        let e1 = (if ok then e\<lparr>revision := revision e + 1\<rparr> else e);
            d1 = (if ok then d else d\<lparr>expiring := key # expiring d\<rparr>);
            e2 = e1\<lparr>val := v\<rparr>
        in notify (d1\<lparr>values_map := (values_map d1)(key \<mapsto> e2)\<rparr>) key e2)"

definition update :: "Database \<Rightarrow> string \<Rightarrow> string \<Rightarrow> 64 word \<Rightarrow> error + Database \<times> bool" where
  "update d key v r =
     (case get d key of (e0, ok) \<Rightarrow>
        let e = (if \<not> ok then e0\<lparr>revision := - 1\<rparr> else e0)
        in if revision e + 1 \<noteq> r then Inr (d, False)
           else
             let d1 = (if \<not> ok then d\<lparr>expiring := key # expiring d\<rparr> else d);
                 e2 = \<lparr>val = v, revision = r\<rparr>
             in case notify (d1\<lparr>values_map := (values_map d1)(key \<mapsto> e2)\<rparr>) key e2 of
                  Inl err \<Rightarrow> Inl err
                | Inr d2 \<Rightarrow> Inr (d2, True))"

text \<open>
  \<open>subscribe\<close> adds the channel to the set of the path, a new empty set when the path
  has none, and records the subscriber under its channel.
\<close>

definition subscribe :: "Database \<Rightarrow> string \<Rightarrow> chan \<Rightarrow> Database" where
  "subscribe d p c =
     d\<lparr>subscriptions := (subscriptions d)(p \<mapsto> insert c (chans_at d p)),
       subscribers := (subscribers d)(c \<mapsto> \<lparr>path = p, ch = c\<rparr>)\<rparr>"

text \<open>
  \<open>unsubscribe\<close>: \<open>d.subscribers[ch]\<close> is the zero subscriber when the channel is not
  registered; \<open>delete\<close> on a missing key or on a \<open>nil\<close> map does nothing, and the
  length of a \<open>nil\<close> map is 0.
\<close>

definition unsubscribe :: "Database \<Rightarrow> chan \<Rightarrow> Database" where
  "unsubscribe d c =
     (let sub = (case subscribers d c of None \<Rightarrow> zero_subscriber | Some s \<Rightarrow> s);
          d1 = d\<lparr>subscribers := (subscribers d)(c := None)\<rparr>
      in case subscriptions d1 (path sub) of
           None \<Rightarrow> d1\<lparr>subscriptions := (subscriptions d1)(path sub := None)\<rparr>
         | Some m \<Rightarrow>
             if m - {ch sub} = {}
             then d1\<lparr>subscriptions := (subscriptions d1)(path sub := None)\<rparr>
             else d1\<lparr>subscriptions := (subscriptions d1)(path sub \<mapsto> m - {ch sub})\<rparr>)"

definition validate :: "string \<Rightarrow> error + unit" where
  "validate key =
     (if length key = 0 \<or> key ! 0 \<noteq> CHR ''/'' then Inl InvalidKey else Inr ())"

subsection \<open>The exported operations\<close>

definition Get :: "Database \<Rightarrow> string \<Rightarrow> error + string \<times> 64 word \<times> bool" where
  "Get d key =
     (case validate key of
        Inl err \<Rightarrow> Inl err
      | Inr _ \<Rightarrow> (case get d key of (e, ok) \<Rightarrow> Inr (val e, revision e, ok)))"

definition Set :: "Database \<Rightarrow> string \<Rightarrow> string \<Rightarrow> error + Database" where
  "Set d key v = (case validate key of Inl err \<Rightarrow> Inl err | Inr _ \<Rightarrow> set_d d key v)"

definition Update :: "Database \<Rightarrow> string \<Rightarrow> string \<Rightarrow> 64 word \<Rightarrow> error + Database \<times> bool" where
  "Update d key v r =
     (case validate key of Inl err \<Rightarrow> Inl err | Inr _ \<Rightarrow> update d key v r)"

text \<open>\<open>Delete\<close> is not validated; \<open>dispatch\<close> serves it with \<open>delete(d.values, key)\<close>.\<close>

definition Delete :: "Database \<Rightarrow> string \<Rightarrow> Database" where
  "Delete d key = d\<lparr>values_map := (values_map d)(key := None)\<rparr>"

text \<open>
  \<open>make(chan Update, n)\<close> is Go's, not the repository's. The runtime panics with
  ``makechan: size out of range'' when \<open>n\<close> is negative and when the buffer of \<open>n\<close>
  elements is larger than it can allocate: on a 64-bit target an \<open>Update\<close> takes 40
  bytes (two string headers and an \<open>int\<close>), the allocator ends at \<open>2 ^ 48\<close> bytes and
  the channel header takes up to 104 of them. \<open>maxChanCap\<close> is the largest capacity that
  passes this check. Within the range the machine is taken to have the memory.
\<close>

definition maxChanCap :: int where
  "maxChanCap = (2 ^ 48 - 104) div 40"

text \<open>
  \<open>Subscribe\<close> makes a new channel of capacity \<open>d.buflen\<close>, which panics on a capacity
  out of range, and has the engine register it. Making the channel touches no field
  of the engine, so it is put together with the registration that \<open>dispatch\<close> performs
  when the request arrives.
\<close>

definition make_chan :: "Database \<Rightarrow> int \<Rightarrow> error + Database \<times> chan" where
  "make_chan d n =
     (if n < 0 \<or> maxChanCap < n then Inl ChanSize
      else Inr (d\<lparr>queues := (queues d)(nextch d := []),
                  caps := (caps d)(nextch d := nat n),
                  nextch := Suc (nextch d)\<rparr>, Chan (nextch d)))"

definition Subscribe :: "Database \<Rightarrow> string \<Rightarrow> error + Database \<times> chan" where
  "Subscribe d p =
     (case validate p of
        Inl err \<Rightarrow> Inl err
      | Inr _ \<Rightarrow>
          (case make_chan d (buflen d) of
             Inl err \<Rightarrow> Inl err
           | Inr (d1, c) \<Rightarrow> Inr (subscribe d1 p c, c)))"

definition Unsubscribe :: "Database \<Rightarrow> chan \<Rightarrow> Database" where
  "Unsubscribe d c = unsubscribe d c"

text \<open>
  A consumer takes the oldest event of a channel (\<open>v := <-ch\<close> in the event stream of
  main.go, \<open>case <-ch\<close> in \<open>expire\<close>); on an empty buffer it waits, and nothing changes.
\<close>

definition receive :: "Database \<Rightarrow> nat \<Rightarrow> Database" where
  "receive d i = d\<lparr>queues := (queues d)(i := tl (queues d i))\<rparr>"

text \<open>
  The calls a client, an event stream or an expiry task can make, and the state after
  one call. An expiry task only calls \<open>Subscribe\<close>, receives, and calls \<open>Delete\<close>; when
  it does so is up to the scheduler and the timer, so its calls appear here like those
  of any other caller. \<open>Close\<close> ends the dispatch loop: no call is served after it, and
  it is not among the calls.
\<close>

datatype call =
    CallGet string
  | CallSet string string
  | CallUpdate string string "64 word"
  | CallDelete string
  | CallSubscribe string
  | CallUnsubscribe chan
  | CallReceive nat

fun exec :: "Database \<Rightarrow> call \<Rightarrow> error + Database" where
  "exec d (CallGet key) = (case Get d key of Inl err \<Rightarrow> Inl err | Inr res \<Rightarrow> Inr d)"
| "exec d (CallSet key v) = Set d key v"
| "exec d (CallUpdate key v r) =
     (case Update d key v r of Inl err \<Rightarrow> Inl err | Inr (d1, ok) \<Rightarrow> Inr d1)"
| "exec d (CallDelete key) = Inr (Delete d key)"
| "exec d (CallSubscribe p) =
     (case Subscribe d p of Inl err \<Rightarrow> Inl err | Inr (d1, c) \<Rightarrow> Inr d1)"
| "exec d (CallUnsubscribe c) = Inr (Unsubscribe d c)"
| "exec d (CallReceive i) = Inr (receive d i)"

text \<open>The states the engine can be in: the new database, and what calls make of it.\<close>

inductive reachable :: "Database \<Rightarrow> bool" where
  reachable_new: "reachable (NewDatabase b x)"
| reachable_exec: "reachable d \<Longrightarrow> exec d c = Inr d1 \<Longrightarrow> reachable d1"

section \<open>Notions of the specification\<close>

text \<open>
  The current revision of a key in the words of the specification: the stored
  revision when the key exists, and -1 otherwise.
\<close>

definition current_revision :: "Database \<Rightarrow> string \<Rightarrow> 64 word" where
  "current_revision d key = (case values_map d key of None \<Rightarrow> - 1 | Some e \<Rightarrow> revision e)"

text \<open>The channels registered at one of the prefixes that \<open>notify\<close> checks for a key.\<close>

definition matched :: "Database \<Rightarrow> string \<Rightarrow> chan set" where
  "matched d key = (\<Union>part \<in> set (checked key). chans_at d part)"

text \<open>
  The shorter prefixes in the words of the specification: the key cut just after each
  slash that lies before its final byte, from the last such slash down to the first.
\<close>

definition slash_prefixes :: "string \<Rightarrow> string list" where
  "slash_prefixes key =
     map (\<lambda>n. take (Suc n) key)
       (filter (\<lambda>n. key ! n = CHR ''/'') (rev [0..<length key - 1]))"

text \<open>
  A call is a successful mutation of a key when it is a \<open>Set\<close> of the key, or an
  \<open>Update\<close> of the key that returns true.
\<close>

fun mutation_of :: "string \<Rightarrow> Database \<Rightarrow> call \<Rightarrow> bool" where
  "mutation_of key d (CallSet k v) = (k = key)"
| "mutation_of key d (CallUpdate k v r) =
     (k = key \<and> (case Update d k v r of Inl err \<Rightarrow> False | Inr (d1, ok) \<Rightarrow> ok))"
| "mutation_of key d c = False"

text \<open>
  The revisions of a key observed along a sequence of calls: after each successful
  mutation of the key, the revision that \<open>get\<close> then reports for it.
\<close>

fun observed :: "Database \<Rightarrow> string \<Rightarrow> call list \<Rightarrow> error + 64 word list" where
  "observed d key [] = Inr []"
| "observed d key (c # cs) =
     (case exec d c of
        Inl err \<Rightarrow> Inl err
      | Inr d1 \<Rightarrow>
          (case observed d1 key cs of
             Inl err \<Rightarrow> Inl err
           | Inr rs \<Rightarrow>
               Inr (if mutation_of key d c then revision (fst (get d1 key)) # rs else rs)))"

text \<open>Several runs of \<open>notify\<close> in a row, with no consumer receiving in between.\<close>

fun notify_all :: "Database \<Rightarrow> (string \<times> entry) list \<Rightarrow> error + Database" where
  "notify_all d [] = Inr d"
| "notify_all d ((key, e) # evs) =
     (case notify d key e of Inl err \<Rightarrow> Inl err | Inr d1 \<Rightarrow> notify_all d1 evs)"

text \<open>
  Agreement of the two indexes of the registry: a channel is in the set of a path
  exactly when \<open>subscribers\<close> maps the channel to that path, and no path has an empty
  set.
\<close>

definition registry_agrees :: "Database \<Rightarrow> bool" where
  "registry_agrees d \<longleftrightarrow>
     (\<forall>c p. c \<in> chans_at d p \<longleftrightarrow> (\<exists>s. subscribers d c = Some s \<and> path s = p)) \<and>
     (\<forall>p. subscriptions d p \<noteq> Some {})"

text \<open>
  What the engine keeps besides: a subscriber is recorded under its own channel, and
  every registered channel is one that \<open>Subscribe\<close> has made.
\<close>

definition registry_made :: "Database \<Rightarrow> bool" where
  "registry_made d \<longleftrightarrow>
     (\<forall>c s. subscribers d c = Some s \<longrightarrow> ch s = c \<and> (\<exists>i < nextch d. c = Chan i))"

text \<open>
  The state after a successful mutation that stores \<open>e\<close> under \<open>key\<close>: the expiry task
  is started when the key is new, the entry is stored, and the event goes to the
  matched channels.
\<close>

definition mutated :: "Database \<Rightarrow> string \<Rightarrow> entry \<Rightarrow> Database" where
  "mutated d key e =
     deliver
       (d\<lparr>expiring := (if values_map d key = None then key # expiring d else expiring d),
          values_map := (values_map d)(key \<mapsto> e)\<rparr>)
       (matched d key) (event key e)"

text \<open>
  A concrete state: the new database after one \<open>Subscribe\<close> at the path \<open>p\<close>. The
  channel of the subscriber is \<open>Chan 0\<close>; \<open>NewDatabase(0, 0)\<close> is the database of main.go.
\<close>

definition one_listener :: "int \<Rightarrow> string \<Rightarrow> Database" where
  "one_listener b p = fst (projr (Subscribe (NewDatabase b 0) p))"

text \<open>
  A second concrete state, built with two calls of the unexported \<open>subscribe\<close>: one
  channel of capacity 64, registered at \<open>/a/\<close> and at \<open>/a/b/\<close>.
\<close>

definition twice_registered :: Database where
  "twice_registered =
     subscribe (subscribe (fst (projr (make_chan (NewDatabase 0 0) 64))) ''/a/'' (Chan 0))
       ''/a/b/'' (Chan 0)"

section \<open>What one run of the notifier does\<close>

lemma deliver_fields [simp]:
  "values_map (deliver d A u) = values_map d"
  "subscriptions (deliver d A u) = subscriptions d"
  "subscribers (deliver d A u) = subscribers d"
  "buflen (deliver d A u) = buflen d"
  "expiry (deliver d A u) = expiry d"
  "caps (deliver d A u) = caps d"
  "nextch (deliver d A u) = nextch d"
  "expiring (deliver d A u) = expiring d"
  by (simp_all add: deliver_def)

lemma queues_deliver:
  "queues (deliver d A u) i =
     (if Chan i \<in> A then try_send (caps d i) (queues d i) u else queues d i)"
  by (simp add: deliver_def)

lemma chans_at_deliver [simp]: "chans_at (deliver d A u) p = chans_at d p"
  by (simp add: chans_at_def)

lemma deliver_deliver:
  assumes "A \<inter> B = {}"
  shows "deliver (deliver d A u) B u = deliver d (A \<union> B) u"
proof -
  have "\<And>i. Chan i \<in> B \<Longrightarrow> Chan i \<notin> A" using assms by auto
  then show ?thesis
    by (auto simp add: deliver_def fun_eq_iff)
qed

lemma visit_pair:
  "visit u p (d, seen) = (deliver d (chans_at d p - seen) u, seen \<union> chans_at d p)"
  by (simp add: visit_def)

lemma fold_visit:
  "fold (visit u) ps (d, seen) =
     (deliver d ((\<Union>p \<in> set ps. chans_at d p) - seen) u, seen \<union> (\<Union>p \<in> set ps. chans_at d p))"
proof (induction ps arbitrary: d seen)
  case Nil
  show ?case by (simp add: deliver_def)
next
  case (Cons p ps)
  let ?rest = "\<Union>p \<in> set ps. chans_at d p"
  have "(chans_at d p - seen) \<inter> (?rest - (seen \<union> chans_at d p)) = {}"
    by auto
  then have "deliver (deliver d (chans_at d p - seen) u) (?rest - (seen \<union> chans_at d p)) u
      = deliver d ((chans_at d p - seen) \<union> (?rest - (seen \<union> chans_at d p))) u"
    by (rule deliver_deliver)
  moreover have "(chans_at d p - seen) \<union> (?rest - (seen \<union> chans_at d p))
      = (\<Union>p \<in> set (p # ps). chans_at d p) - seen"
    by auto
  moreover have "fold (visit u) (p # ps) (d, seen)
      = (deliver (deliver d (chans_at d p - seen) u) (?rest - (seen \<union> chans_at d p)) u,
         (seen \<union> chans_at d p) \<union> ?rest)"
    by (simp add: visit_pair Cons.IH)
  ultimately show ?case
    by (simp add: Un_assoc)
qed

lemma last_index_from_ge: "- 1 \<le> last_index_from n s c"
  by (induction n) auto

lemma LastIndexByte_ge: "- 1 \<le> LastIndexByte s c"
  by (simp add: LastIndexByte_def last_index_from_ge)

text \<open>The loop visits the prefixes \<open>checked part\<close>, one after the other, and returns.\<close>

lemma notify_loop_fold:
  "length part \<noteq> 0 \<Longrightarrow>
   notify_loop d seen part u = Inr (fst (fold (visit u) (checked part) (d, seen)))"
proof (induction d seen part u rule: notify_loop.induct)
  case (1 d seen part u)
  show ?case
  proof (cases "LastIndexByte (take (length part - 1) part) (CHR ''/'') = - 1")
    case True
    with "1.prems" show ?thesis
      by (subst notify_loop.simps, subst checked.simps) simp
  next
    case False
    let ?next = "take (nat (LastIndexByte (take (length part - 1) part) (CHR ''/'') + 1)) part"
    have "0 \<le> LastIndexByte (take (length part - 1) part) (CHR ''/'')"
      using False LastIndexByte_ge [of "take (length part - 1) part" "CHR ''/''"] by linarith
    with "1.prems" have "length ?next \<noteq> 0" by simp
    with "1.IH" "1.prems" False
    have "notify_loop (fst (visit u part (d, seen))) (snd (visit u part (d, seen))) ?next u
        = Inr (fst (fold (visit u) (checked ?next)
            (fst (visit u part (d, seen)), snd (visit u part (d, seen)))))"
      by simp
    with "1.prems" False show ?thesis
      by (subst notify_loop.simps, subst checked.simps) simp
  qed
qed

lemma notify_delivers:
  "length key \<noteq> 0 \<Longrightarrow> notify d key e = Inr (deliver d (matched d key) (event key e))"
  by (simp add: notify_def notify_loop_fold fold_visit matched_def)

section \<open>Set and Update\<close>

lemma validate_Inr: "validate key = Inr () \<longleftrightarrow> length key \<noteq> 0 \<and> key ! 0 = CHR ''/''"
  by (simp add: validate_def)

lemma validate_Inl:
  "validate key = Inl err \<longleftrightarrow> err = InvalidKey \<and> (length key = 0 \<or> key ! 0 \<noteq> CHR ''/'')"
  by (auto simp add: validate_def)

lemma matched_update [simp]:
  "matched (d\<lparr>values_map := m\<rparr>) key = matched d key"
  "matched (d\<lparr>expiring := ks\<rparr>) key = matched d key"
  by (simp_all add: matched_def chans_at_def)

lemma entry_updates: "(e :: entry)\<lparr>revision := r, val := v\<rparr> = \<lparr>val = v, revision = r\<rparr>"
  by (cases e) simp

lemma set_d_eq:
  assumes "length key \<noteq> 0"
  shows "set_d d key v = Inr (mutated d key \<lparr>val = v, revision = current_revision d key + 1\<rparr>)"
proof (cases "values_map d key")
  case None
  with assms show ?thesis
    by (simp add: set_d_def get_def notify_delivers mutated_def current_revision_def
        zero_entry_def Let_def)
next
  case (Some e)
  with assms show ?thesis
    by (simp add: set_d_def get_def notify_delivers mutated_def current_revision_def Let_def
        entry_updates)
qed

lemma update_eq:
  assumes "length key \<noteq> 0"
  shows "update d key v r =
     (if r = current_revision d key + 1
      then Inr (mutated d key \<lparr>val = v, revision = r\<rparr>, True)
      else Inr (d, False))"
proof (cases "values_map d key")
  case None
  with assms show ?thesis
    by (auto simp add: update_def get_def notify_delivers mutated_def current_revision_def
        zero_entry_def Let_def)
next
  case (Some e)
  with assms show ?thesis
    by (auto simp add: update_def get_def notify_delivers mutated_def current_revision_def Let_def)
qed

lemma mutated_fields [simp]:
  "values_map (mutated d key e) = (values_map d)(key \<mapsto> e)"
  "subscriptions (mutated d key e) = subscriptions d"
  "subscribers (mutated d key e) = subscribers d"
  "buflen (mutated d key e) = buflen d"
  "caps (mutated d key e) = caps d"
  "nextch (mutated d key e) = nextch d"
  by (simp_all add: mutated_def)

lemma queues_mutated:
  "queues (mutated d key e) i =
     (if Chan i \<in> matched d key then try_send (caps d i) (queues d i) (event key e)
      else queues d i)"
  by (simp add: mutated_def queues_deliver)

text \<open>
  Claim C1. For a key that passes \<open>validate\<close>, \<open>Update\<close> returns, and it returns true
  exactly when the expected revision is the current revision plus one (in Go's \<open>int\<close>
  arithmetic), the current revision of an absent key being -1. When it returns true
  the store holds the entry of the given value and revision under the key and is
  otherwise as before; when it returns false the whole state is unchanged.
\<close>

theorem Update_compare_and_swap:
  assumes "validate key = Inr ()"
  shows "\<exists>d1. Update d key v r = Inr (d1, r = current_revision d key + 1) \<and>
    (if r = current_revision d key + 1
     then values_map d1 = (values_map d)(key \<mapsto> \<lparr>val = v, revision = r\<rparr>)
     else d1 = d)"
proof -
  from assms have "length key \<noteq> 0"
    by (simp add: validate_Inr)
  then show ?thesis
    by (simp add: Update_def assms update_eq)
qed

theorem Update_compare_and_swap_witness:
  "validate ''/fib'' = Inr () \<and>
   (\<exists>d1. Update (NewDatabase 0 0) ''/fib'' ''[0,1]'' 0
       = Inr (d1, (0 :: 64 word) = current_revision (NewDatabase 0 0) ''/fib'' + 1) \<and>
     (if (0 :: 64 word) = current_revision (NewDatabase 0 0) ''/fib'' + 1
      then values_map d1
        = (values_map (NewDatabase 0 0))(''/fib'' \<mapsto> \<lparr>val = ''[0,1]'', revision = 0\<rparr>)
      else d1 = NewDatabase 0 0))"
  using Update_compare_and_swap [of "''/fib''" "NewDatabase 0 0" "''[0,1]''" 0]
  by (simp add: validate_def)

section \<open>Revisions\<close>

lemma exec_mutation:
  assumes "mutation_of key d c" and "exec d c = Inr d1"
  shows "\<exists>v. d1 = mutated d key \<lparr>val = v, revision = current_revision d key + 1\<rparr>"
proof (cases c)
  case (CallSet k v)
  with assms have k: "k = key" and ok: "Set d key v = Inr d1" by simp_all
  from ok have "length key \<noteq> 0"
    by (auto simp add: Set_def validate_def split: if_splits)
  with ok have "d1 = mutated d key \<lparr>val = v, revision = current_revision d key + 1\<rparr>"
    by (auto simp add: Set_def set_d_eq validate_def split: if_splits)
  then show ?thesis ..
next
  case (CallUpdate k v r)
  with assms have k: "k = key"
    and ok: "(case Update d key v r of Inl err \<Rightarrow> False | Inr (d2, b) \<Rightarrow> b)"
    and ex: "(case Update d key v r of Inl err \<Rightarrow> Inl err | Inr (d2, b) \<Rightarrow> Inr d2) = Inr d1"
    by auto
  from ok have len: "length key \<noteq> 0"
    by (auto simp add: Update_def validate_def split: if_splits)
  with ok ex have "d1 = mutated d key \<lparr>val = v, revision = current_revision d key + 1\<rparr>"
    by (auto simp add: Update_def update_eq validate_def split: if_splits)
  then show ?thesis ..
qed (use assms in simp_all)

lemma exec_other:
  assumes "\<not> mutation_of key d c" and "c \<noteq> CallDelete key" and "exec d c = Inr d1"
  shows "values_map d1 key = values_map d key"
proof (cases c)
  case (CallGet k)
  with assms show ?thesis by (auto split: sum.splits)
next
  case (CallSet k v)
  with assms have k: "k \<noteq> key" and ok: "Set d k v = Inr d1" by simp_all
  from ok have "length k \<noteq> 0"
    by (auto simp add: Set_def validate_def split: if_splits)
  with ok k show ?thesis
    by (auto simp add: Set_def set_d_eq validate_def split: if_splits)
next
  case (CallUpdate k v r)
  with assms have ex: "(case Update d k v r of Inl err \<Rightarrow> Inl err | Inr (d2, b) \<Rightarrow> Inr d2) = Inr d1"
    and no: "\<not> (k = key \<and> (case Update d k v r of Inl err \<Rightarrow> False | Inr (d2, b) \<Rightarrow> b))"
    by simp_all
  from ex have len: "length k \<noteq> 0"
    by (auto simp add: Update_def validate_def split: if_splits sum.splits)
  with ex no show ?thesis
    by (auto simp add: Update_def update_eq validate_def split: if_splits)
next
  case (CallDelete k)
  with assms show ?thesis by (auto simp add: Delete_def)
next
  case (CallSubscribe p)
  with assms show ?thesis
    by (auto simp add: Subscribe_def make_chan_def subscribe_def split: sum.splits if_splits)
next
  case (CallUnsubscribe c')
  with assms show ?thesis
    by (auto simp add: Unsubscribe_def unsubscribe_def Let_def split: option.splits)
next
  case (CallReceive i)
  with assms show ?thesis by (auto simp add: receive_def)
qed

lemma current_revision_mutated [simp]:
  "current_revision (mutated d key e) key = revision e"
  by (simp add: current_revision_def)

lemma get_mutated [simp]: "get (mutated d key e) key = (e, True)"
  by (simp add: get_def)

lemma observed_from:
  assumes "CallDelete key \<notin> set cs" and "observed d key cs = Inr rs"
  shows "rs = map (\<lambda>n. current_revision d key + 1 + of_nat n) [0..<length rs]"
  using assms
proof (induction cs arbitrary: d rs)
  case Nil
  then show ?case by simp
next
  case (Cons c cs)
  from Cons.prems(2) obtain d1 rs1 where ex: "exec d c = Inr d1"
    and ob: "observed d1 key cs = Inr rs1"
    and rs: "rs = (if mutation_of key d c then revision (fst (get d1 key)) # rs1 else rs1)"
    by (auto split: sum.splits)
  from Cons.prems(1) have nd: "CallDelete key \<notin> set cs" and c: "c \<noteq> CallDelete key"
    by auto
  from Cons.IH [OF nd ob]
  have ih: "rs1 = map (\<lambda>n. current_revision d1 key + 1 + of_nat n) [0..<length rs1]" .
  show ?case
  proof (cases "mutation_of key d c")
    case True
    from exec_mutation [OF True ex] obtain v
      where d1: "d1 = mutated d key \<lparr>val = v, revision = current_revision d key + 1\<rparr>" ..
    have "map (\<lambda>n. current_revision d key + 1 + of_nat n) [0..<Suc (length rs1)]
        = (current_revision d key + 1)
          # map (\<lambda>n. current_revision d key + 1 + 1 + of_nat n) [0..<length rs1]"
      by (simp add: upt_conv_Cons map_Suc_upt [symmetric] del: upt_Suc add: ac_simps)
    with True rs ih d1 show ?thesis by simp
  next
    case False
    from exec_other [OF False c ex] have "current_revision d1 key = current_revision d key"
      by (simp add: current_revision_def)
    with False rs ih show ?thesis by simp
  qed
qed

lemma sint_of_nat_small:
  assumes "n < 2 ^ 63"
  shows "sint (of_nat n :: 64 word) = int n"
proof -
  have "int n < 2 ^ 63" using assms by (simp flip: of_nat_less_iff add: of_nat_power)
  then have "signed_take_bit 63 (int n) = int n"
    by (simp add: signed_take_bit_int_eq_self)
  then show ?thesis by (simp add: signed_of_nat)
qed


text \<open>
  Claim C2. Along any sequence of calls that all return and that holds no \<open>Delete\<close> of
  the key, the revisions observed after the successful mutations of the key (each
  \<open>Set\<close> of it and each \<open>Update\<close> of it that returns true) go up by exactly one from
  the current revision, whatever other calls come in between. When the key is absent
  at the start they are 0, 1, 2, ... in call order; as Go \<open>int\<close>s they read as these
  numbers for all of the first \<open>2 ^ 63\<close> mutations.
\<close>

theorem revisions_count_up:
  assumes "CallDelete key \<notin> set cs" and "observed d key cs = Inr rs"
  shows "(\<forall>n < length rs. rs ! n = current_revision d key + 1 + of_nat n) \<and>
    (values_map d key = None \<longrightarrow>
      (\<forall>n < length rs. rs ! n = of_nat n \<and> (n < 2 ^ 63 \<longrightarrow> sint (rs ! n) = int n)))"
proof -
  have rs: "rs = map (\<lambda>n. current_revision d key + 1 + of_nat n) [0..<length rs]"
    using assms by (rule observed_from)
  have nth: "rs ! n = current_revision d key + 1 + of_nat n" if "n < length rs" for n
  proof -
    have "rs ! n = map (\<lambda>n. current_revision d key + 1 + of_nat n) [0..<length rs] ! n"
      using rs by simp
    with that show ?thesis by simp
  qed
  have "rs ! n = of_nat n \<and> (n < 2 ^ 63 \<longrightarrow> sint (rs ! n) = int n)"
    if "values_map d key = None" and "n < length rs" for n
  proof -
    from that have "rs ! n = of_nat n"
      by (simp add: nth current_revision_def)
    then show ?thesis
      by (simp add: sint_of_nat_small)
  qed
  with nth show ?thesis by blast
qed

theorem revisions_count_up_witness:
  "CallDelete ''/k'' \<notin> set [CallSet ''/k'' ''1'', CallUpdate ''/k'' ''2'' 1,
       CallUpdate ''/k'' ''3'' 1, CallSet ''/j'' ''4'', CallSet ''/k'' ''5''] \<and>
   observed (NewDatabase 0 0) ''/k'' [CallSet ''/k'' ''1'', CallUpdate ''/k'' ''2'' 1,
       CallUpdate ''/k'' ''3'' 1, CallSet ''/j'' ''4'', CallSet ''/k'' ''5''] = Inr [0, 1, 2] \<and>
   values_map (NewDatabase 0 0) ''/k'' = None \<and>
   [0, 1, 2 :: 64 word] ! 2 = of_nat 2 \<and> sint ([0, 1, 2 :: 64 word] ! 2) = int 2"
proof -
  let ?cs = "[CallSet ''/k'' ''1'', CallUpdate ''/k'' ''2'' 1,
       CallUpdate ''/k'' ''3'' 1, CallSet ''/j'' ''4'', CallSet ''/k'' ''5'']"
  have nd: "CallDelete ''/k'' \<notin> set ?cs" by simp
  have ob: "observed (NewDatabase 0 0) ''/k'' ?cs = Inr [0, 1, 2]"
    by (simp add: Set_def Update_def validate_def set_d_eq update_eq current_revision_def
        NewDatabase_def)
  have ab: "values_map (NewDatabase 0 0) ''/k'' = None"
    by (simp add: NewDatabase_def)
  from revisions_count_up [OF nd ob] ab nd ob show ?thesis
    by simp
qed

section \<open>The prefixes that are checked\<close>

lemma last_index_from_found:
  "last_index_from n s c \<noteq> - 1 \<Longrightarrow> s ! nat (last_index_from n s c) = c"
  by (induction n) auto

lemma last_index_from_none:
  "last_index_from n s c = - 1 \<Longrightarrow> i < n \<Longrightarrow> s ! i \<noteq> c"
proof (induction n)
  case 0
  then show ?case by simp
next
  case (Suc n)
  then show ?case
    by (cases "i = n") (auto split: if_splits)
qed

lemma LastIndexByte_found:
  "LastIndexByte s c \<noteq> - 1 \<Longrightarrow> s ! nat (LastIndexByte s c) = c"
  by (simp add: LastIndexByte_def last_index_from_found)

lemma LastIndexByte_none:
  "LastIndexByte s c = - 1 \<Longrightarrow> i < length s \<Longrightarrow> s ! i \<noteq> c"
  unfolding LastIndexByte_def by (rule last_index_from_none)

text \<open>The prefix that follows \<open>part\<close> in the walk, when there is one.\<close>

lemma truncate_props:
  assumes "length part \<noteq> 0"
    and "LastIndexByte (take (length part - 1) part) (CHR ''/'') \<noteq> - 1"
  shows "length (take (nat (LastIndexByte (take (length part - 1) part) (CHR ''/'') + 1)) part) \<noteq> 0"
    and "take (nat (LastIndexByte (take (length part - 1) part) (CHR ''/'') + 1)) part ! 0 = part ! 0"
    and "last (take (nat (LastIndexByte (take (length part - 1) part) (CHR ''/'') + 1)) part) = CHR ''/''"
proof -
  let ?s = "take (length part - 1) part"
  let ?k = "LastIndexByte ?s (CHR ''/'')"
  have ge: "0 \<le> ?k"
    using assms(2) LastIndexByte_ge [of ?s "CHR ''/''"] by linarith
  have lt: "nat ?k < length part - 1"
    using LastIndexByte_less [of ?s "CHR ''/''"] ge by simp
  have at: "part ! nat ?k = CHR ''/''"
    using LastIndexByte_found [OF assms(2)] lt by simp
  have n: "nat (?k + 1) = Suc (nat ?k)"
    using ge by simp
  show "length (take (nat (?k + 1)) part) \<noteq> 0"
    using assms(1) n by simp
  show "take (nat (?k + 1)) part ! 0 = part ! 0"
    using n by simp
  have "take (nat (?k + 1)) part = take (nat ?k) part @ [part ! nat ?k]"
    using lt n by (simp add: take_Suc_conv_app_nth)
  with at show "last (take (nat (?k + 1)) part) = CHR ''/''"
    by simp
qed

lemma checked_not_Nil: "checked part \<noteq> []"
  by (subst checked.simps) simp

lemma hd_checked: "hd (checked part) = part"
  by (subst checked.simps) simp

lemma last_checked:
  "length part \<noteq> 0 \<Longrightarrow> part ! 0 = CHR ''/'' \<Longrightarrow> last (checked part) = ''/''"
proof (induction part rule: checked.induct)
  case (1 part)
  let ?s = "take (length part - 1) part"
  show ?case
  proof (cases "LastIndexByte ?s (CHR ''/'') = - 1")
    case True
    have "length part = 1"
    proof (rule ccontr)
      assume "length part \<noteq> 1"
      with "1.prems" have pos: "0 < length ?s" by (cases part) auto
      then have "?s ! 0 = part ! 0" by simp
      with LastIndexByte_none [OF True pos] "1.prems" show False by simp
    qed
    with "1.prems" have "part = ''/''"
      by (cases part) simp_all
    then show ?thesis
      by (subst checked.simps) (simp add: LastIndexByte_def)
  next
    case False
    let ?next = "take (nat (LastIndexByte ?s (CHR ''/'') + 1)) part"
    from truncate_props [OF "1.prems"(1) False] "1.prems"
    have "length ?next \<noteq> 0" and "?next ! 0 = CHR ''/''" by simp_all
    with "1.IH" "1.prems" False have "last (checked ?next) = ''/''" by simp
    with "1.prems" False show ?thesis
      by (subst checked.simps) (simp add: checked_not_Nil)
  qed
qed

lemma tl_checked_slash:
  "p \<in> set (tl (checked part)) \<Longrightarrow> length p \<noteq> 0 \<and> last p = CHR ''/''"
proof (induction part arbitrary: p rule: checked.induct)
  case (1 part)
  let ?s = "take (length part - 1) part"
  let ?next = "take (nat (LastIndexByte ?s (CHR ''/'') + 1)) part"
  from "1.prems" have ne: "length part \<noteq> 0" and f: "LastIndexByte ?s (CHR ''/'') \<noteq> - 1"
    and p: "p \<in> set (checked ?next)"
    by (subst (asm) checked.simps, simp split: if_splits)+
  have "checked ?next = hd (checked ?next) # tl (checked ?next)"
    using checked_not_Nil by simp
  with p have "p = ?next \<or> p \<in> set (tl (checked ?next))"
    by (metis hd_checked set_ConsD)
  then show ?case
  proof
    assume "p = ?next"
    with truncate_props [OF ne f] show ?thesis by simp
  next
    assume "p \<in> set (tl (checked ?next))"
    with "1.IH" ne f show ?thesis by simp
  qed
qed

lemma checked_abc: "checked ''/a/b/c'' = [''/a/b/c'', ''/a/b/'', ''/a/'', ''/'']"
  by (simp add: checked.simps LastIndexByte_def)

lemma last_index_from_later:
  "last_index_from n s c < int i \<Longrightarrow> i < n \<Longrightarrow> s ! i \<noteq> c"
proof (induction n)
  case 0
  then show ?case by simp
next
  case (Suc n)
  then show ?case
    by (cases "i = n") (auto split: if_splits)
qed

lemma LastIndexByte_later:
  "LastIndexByte s c < int i \<Longrightarrow> i < length s \<Longrightarrow> s ! i \<noteq> c"
  unfolding LastIndexByte_def by (rule last_index_from_later)

lemma filter_rev_upt_last:
  assumes "k < m" and "P k" and "\<And>i. k < i \<Longrightarrow> i < m \<Longrightarrow> \<not> P i"
  shows "filter P (rev [0..<m]) = k # filter P (rev [0..<k])"
  using assms
proof (induction m)
  case 0
  then show ?case by simp
next
  case (Suc m)
  show ?case
  proof (cases "k = m")
    case True
    with Suc.prems show ?thesis by simp
  next
    case False
    with Suc.prems have "k < m" and "\<not> P m" by auto
    with Suc show ?thesis by simp
  qed
qed

lemma checked_slash_prefixes: "checked part = part # slash_prefixes part"
proof (induction part rule: checked.induct)
  case (1 part)
  let ?s = "take (length part - 1) part"
  let ?k = "LastIndexByte ?s (CHR ''/'')"
  show ?case
  proof (cases "length part = 0")
    case True
    then show ?thesis
      by (subst checked.simps) (simp add: slash_prefixes_def)
  next
    case ne: False
    show ?thesis
    proof (cases "?k = - 1")
      case True
      have "part ! i \<noteq> CHR ''/''" if "i < length part - 1" for i
        using LastIndexByte_none [OF True, of i] that by simp
      then have "slash_prefixes part = []"
        by (simp add: slash_prefixes_def filter_empty_conv)
      with ne True show ?thesis
        by (subst checked.simps) simp
    next
      case False
      let ?next = "take (nat (?k + 1)) part"
      have ge: "0 \<le> ?k"
        using False LastIndexByte_ge [of ?s "CHR ''/''"] by linarith
      have lt: "nat ?k < length part - 1"
        using LastIndexByte_less [of ?s "CHR ''/''"] ge by simp
      have at: "part ! nat ?k = CHR ''/''"
        using LastIndexByte_found [OF False] lt by simp
      have n: "nat (?k + 1) = Suc (nat ?k)"
        using ge by simp
      have later: "part ! i \<noteq> CHR ''/''" if "nat ?k < i" and "i < length part - 1" for i
      proof -
        from that ge have "?k < int i" by linarith
        from LastIndexByte_later [OF this, of ] that show ?thesis by simp
      qed
      have f: "filter (\<lambda>n. part ! n = CHR ''/'') (rev [0..<length part - 1])
          = nat ?k # filter (\<lambda>n. part ! n = CHR ''/'') (rev [0..<nat ?k])"
        using lt at later by (rule filter_rev_upt_last)
      have len: "length ?next - 1 = nat ?k"
        using lt n by simp
      have "filter (\<lambda>n. ?next ! n = CHR ''/'') (rev [0..<nat ?k])
          = filter (\<lambda>n. part ! n = CHR ''/'') (rev [0..<nat ?k])"
        using n by (intro filter_cong) auto
      moreover have "map (\<lambda>n. take (Suc n) ?next) xs = map (\<lambda>n. take (Suc n) part) xs"
        if "set xs \<subseteq> {0..<nat ?k}" for xs
        using that n by (intro map_cong) (auto simp add: min_def)
      ultimately have "slash_prefixes ?next
          = map (\<lambda>n. take (Suc n) part) (filter (\<lambda>n. part ! n = CHR ''/'') (rev [0..<nat ?k]))"
        unfolding slash_prefixes_def len by auto
      with f n have c: "slash_prefixes part = ?next # slash_prefixes ?next"
        by (simp add: slash_prefixes_def)
      from "1.IH" ne False have "checked ?next = ?next # slash_prefixes ?next" by simp
      with c ne False show ?thesis
        by (subst checked.simps) simp
    qed
  qed
qed

section \<open>The registry\<close>

lemma registry_new: "registry_agrees (NewDatabase b x) \<and> registry_made (NewDatabase b x)"
  by (simp add: registry_agrees_def registry_made_def chans_at_def NewDatabase_def)

lemma unsubscribe_absent:
  assumes "registry_agrees d" and "registry_made d" and "subscribers d c = None"
  shows "unsubscribe d c = d"
proof (cases "subscriptions d []")
  case None
  with assms(3) show ?thesis
    by (simp add: unsubscribe_def zero_subscriber_def fun_upd_idem)
next
  case (Some m)
  have "NilChan \<notin> m"
  proof
    assume "NilChan \<in> m"
    with Some have "NilChan \<in> chans_at d []" by (simp add: chans_at_def)
    with assms(1) obtain s where "subscribers d NilChan = Some s"
      by (auto simp add: registry_agrees_def)
    with assms(2) show False by (auto simp add: registry_made_def)
  qed
  moreover from assms(1) Some have "m \<noteq> {}"
    by (auto simp add: registry_agrees_def)
  ultimately have "m - {NilChan} = m" and "m - {NilChan} \<noteq> {}" by auto
  with Some assms(3) show ?thesis
    by (simp add: unsubscribe_def zero_subscriber_def fun_upd_idem)
qed

lemma unsubscribe_registered:
  assumes a: "registry_agrees d" and m: "registry_made d" and s: "subscribers d c = Some s"
  shows "registry_agrees (unsubscribe d c) \<and> registry_made (unsubscribe d c)"
proof -
  from m s have chs: "ch s = c" by (auto simp add: registry_made_def)
  from a s have "c \<in> chans_at d (path s)" by (auto simp add: registry_agrees_def)
  then obtain ms where ms: "subscriptions d (path s) = Some ms" and cms: "c \<in> ms"
    by (auto simp add: chans_at_def split: option.splits)
  let ?d1 = "unsubscribe d c"
  have subs: "subscribers ?d1 = (subscribers d)(c := None)"
    using s ms by (simp add: unsubscribe_def Let_def)
  have scr: "subscriptions ?d1 =
      (if ms - {c} = {} then (subscriptions d)(path s := None)
       else (subscriptions d)(path s \<mapsto> ms - {c}))"
    using s ms chs by (simp add: unsubscribe_def Let_def)
  have nx: "nextch ?d1 = nextch d"
    using s ms by (simp add: unsubscribe_def Let_def)
  have at: "chans_at ?d1 p = (if p = path s then ms - {c} else chans_at d p)" for p
    using ms by (auto simp add: scr chans_at_def)
  have "c' \<in> chans_at ?d1 p \<longleftrightarrow> (\<exists>s'. subscribers ?d1 c' = Some s' \<and> path s' = p)" for c' p
  proof (cases "c' = c")
    case True
    have "c \<notin> chans_at ?d1 p"
    proof (cases "p = path s")
      case True
      then show ?thesis by (simp add: at)
    next
      case False
      with a s show ?thesis by (auto simp add: at registry_agrees_def)
    qed
    with True show ?thesis by (simp add: subs)
  next
    case False
    have "chans_at d (path s) = ms"
      using ms by (simp add: chans_at_def)
    with False have "c' \<in> chans_at ?d1 p \<longleftrightarrow> c' \<in> chans_at d p"
      by (auto simp add: at)
    with a False show ?thesis by (simp add: subs registry_agrees_def)
  qed
  moreover have "subscriptions ?d1 p \<noteq> Some {}" for p
    using a by (auto simp add: scr registry_agrees_def)
  moreover have "registry_made ?d1"
    using m by (auto simp add: registry_made_def subs nx split: if_splits)
  ultimately show ?thesis
    by (simp add: registry_agrees_def)
qed

lemma Subscribe_registry:
  assumes a: "registry_agrees d" and m: "registry_made d" and s: "Subscribe d p = Inr (d1, c)"
  shows "registry_agrees d1 \<and> registry_made d1"
proof -
  let ?n = "nextch d"
  from s have c: "c = Chan ?n"
    and subs: "subscribers d1 = (subscribers d)(c \<mapsto> \<lparr>path = p, ch = c\<rparr>)"
    and scr: "subscriptions d1 = (subscriptions d)(p \<mapsto> insert c (chans_at d p))"
    and nx: "nextch d1 = Suc ?n"
    by (auto simp add: Subscribe_def make_chan_def subscribe_def chans_at_def
        split: sum.splits if_splits)
  from m c have fresh: "subscribers d c = None"
    by (cases "subscribers d c") (auto simp add: registry_made_def)
  with a have nowhere: "c \<notin> chans_at d q" for q
    by (auto simp add: registry_agrees_def)
  have at: "chans_at d1 q = (if q = p then insert c (chans_at d p) else chans_at d q)" for q
    by (simp add: scr chans_at_def)
  have "c' \<in> chans_at d1 q \<longleftrightarrow> (\<exists>s'. subscribers d1 c' = Some s' \<and> path s' = q)" for c' q
  proof (cases "c' = c")
    case True
    with nowhere show ?thesis by (auto simp add: at subs)
  next
    case False
    with a show ?thesis by (auto simp add: at subs registry_agrees_def)
  qed
  moreover have "subscriptions d1 q \<noteq> Some {}" for q
    using a by (auto simp add: scr registry_agrees_def)
  moreover have "registry_made d1"
    using m c by (auto simp add: registry_made_def subs nx less_Suc_eq)
  ultimately show ?thesis
    by (simp add: registry_agrees_def)
qed

lemma one_listener_eq:
  "one_listener b p =
     \<lparr>values_map = Map.empty,
      subscriptions = [p \<mapsto> {Chan 0}],
      subscribers = [Chan 0 \<mapsto> \<lparr>path = p, ch = Chan 0\<rparr>],
      buflen = (if b = 0 then 64 else b),
      expiry = defaultExpiry,
      queues = (\<lambda>i. []),
      caps = (\<lambda>i. 0)(0 := nat (if b = 0 then 64 else b)),
      nextch = Suc 0,
      expiring = []\<rparr>"
  if "validate p = Inr ()" and "0 \<le> b \<and> b \<le> 64"
  using that
  by (simp add: one_listener_def Subscribe_def make_chan_def maxChanCap_def subscribe_def
      NewDatabase_def defaultBuflen_def chans_at_def fun_upd_idem)

lemma Subscribe_new:
  assumes "validate p = Inr ()" and "0 \<le> b \<and> b \<le> 64"
  shows "Subscribe (NewDatabase b 0) p = Inr (one_listener b p, Chan 0)"
  using assms
  by (simp add: one_listener_def Subscribe_def make_chan_def maxChanCap_def NewDatabase_def
      defaultBuflen_def)

lemma reachable_one_listener:
  assumes "validate p = Inr ()" and "0 \<le> b \<and> b \<le> 64"
  shows "reachable (one_listener b p)"
proof -
  have "exec (NewDatabase b 0) (CallSubscribe p) = Inr (one_listener b p)"
    using Subscribe_new [OF assms] by simp
  with reachable_new show ?thesis by (rule reachable_exec)
qed

lemma registry_other_fields [simp]:
  "registry_agrees (d\<lparr>values_map := m\<rparr>) = registry_agrees d"
  "registry_made (d\<lparr>values_map := m\<rparr>) = registry_made d"
  "registry_agrees (d\<lparr>queues := q\<rparr>) = registry_agrees d"
  "registry_made (d\<lparr>queues := q\<rparr>) = registry_made d"
  "registry_agrees (mutated d k e) = registry_agrees d"
  "registry_made (mutated d k e) = registry_made d"
  by (simp_all add: registry_agrees_def registry_made_def chans_at_def)

lemma exec_registry:
  assumes "registry_agrees d \<and> registry_made d" and "exec d c = Inr d1"
  shows "registry_agrees d1 \<and> registry_made d1"
proof (cases c)
  case (CallGet k)
  with assms show ?thesis by (auto split: sum.splits)
next
  case (CallSet k v)
  with assms(2) have ok: "Set d k v = Inr d1" by simp
  then have "length k \<noteq> 0"
    by (auto simp add: Set_def validate_def split: if_splits)
  with ok have "d1 = mutated d k \<lparr>val = v, revision = current_revision d k + 1\<rparr>"
    by (auto simp add: Set_def set_d_eq validate_def split: if_splits)
  with assms(1) show ?thesis
    by simp
next
  case (CallUpdate k v r)
  with assms(2) obtain b where ok: "Update d k v r = Inr (d1, b)"
    by (auto split: sum.splits)
  then have "length k \<noteq> 0"
    by (auto simp add: Update_def validate_def split: if_splits)
  with ok have "d1 = mutated d k \<lparr>val = v, revision = r\<rparr> \<or> d1 = d"
    by (auto simp add: Update_def update_eq validate_def split: if_splits)
  with assms(1) show ?thesis
    by auto
next
  case (CallDelete k)
  with assms show ?thesis
    by (auto simp add: Delete_def)
next
  case (CallSubscribe p)
  with assms(2) obtain c' where "Subscribe d p = Inr (d1, c')"
    by (auto split: sum.splits)
  with assms(1) show ?thesis
    by (auto dest: Subscribe_registry)
next
  case (CallUnsubscribe c')
  with assms(2) have d1: "d1 = unsubscribe d c'" by (simp add: Unsubscribe_def)
  show ?thesis
  proof (cases "subscribers d c'")
    case None
    with assms(1) d1 show ?thesis by (simp add: unsubscribe_absent)
  next
    case (Some s)
    with assms(1) d1 show ?thesis by (simp add: unsubscribe_registered)
  qed
next
  case (CallReceive i)
  with assms show ?thesis
    by (auto simp add: receive_def)
qed

lemma reachable_registry:
  "reachable d \<Longrightarrow> registry_agrees d \<and> registry_made d"
proof (induction rule: reachable.induct)
  case (reachable_new b x)
  show ?case by (rule registry_new)
next
  case (reachable_exec d c d1)
  from exec_registry [OF reachable_exec.IH reachable_exec.hyps(2)] show ?case .
qed

text \<open>
  Claim C9. In every state reached from a new database by exported calls and by
  consumers receiving, the two indexes of the registry agree: a channel is in the
  set \<open>subscriptions[p]\<close> exactly when \<open>subscribers\<close> maps it to a subscriber of path
  \<open>p\<close>, so it is in the set of at most one path, and no path is mapped to an empty
  set.
\<close>

theorem registry_indexes_agree:
  assumes "reachable d"
  shows "registry_agrees d \<and> (\<forall>c p q. c \<in> chans_at d p \<and> c \<in> chans_at d q \<longrightarrow> p = q)"
proof -
  from assms have a: "registry_agrees d"
    by (simp add: reachable_registry)
  then have "p = q" if "c \<in> chans_at d p" and "c \<in> chans_at d q" for c p q
    using that by (auto simp add: registry_agrees_def)
  with a show ?thesis by blast
qed

theorem registry_indexes_agree_witness:
  "reachable (one_listener 0 ''/a/'') \<and>
   Chan 0 \<in> chans_at (one_listener 0 ''/a/'') ''/a/'' \<and>
   subscribers (one_listener 0 ''/a/'') (Chan 0) = Some \<lparr>path = ''/a/'', ch = Chan 0\<rparr> \<and>
   registry_agrees (one_listener 0 ''/a/'')"
proof -
  have v: "validate ''/a/'' = Inr ()" by (simp add: validate_def)
  have r: "reachable (one_listener 0 ''/a/'')"
    by (rule reachable_one_listener [OF v]) simp
  from registry_indexes_agree [OF r] r show ?thesis
    by (simp add: one_listener_eq [OF v] chans_at_def)
qed

text \<open>
  Claim C10. \<open>Unsubscribe\<close> has no failing branch. In a reachable state, called with a
  channel that is not registered it leaves the whole state as it is; after any
  \<open>Unsubscribe\<close> the channel is not registered, so a second \<open>Unsubscribe\<close> of the same
  channel changes nothing.
\<close>

theorem Unsubscribe_unregistered:
  assumes "reachable d"
  shows "(subscribers d c = None \<longrightarrow> Unsubscribe d c = d) \<and>
    subscribers (Unsubscribe d c) c = None \<and>
    Unsubscribe (Unsubscribe d c) c = Unsubscribe d c"
proof -
  from assms have inv: "registry_agrees d \<and> registry_made d"
    by (rule reachable_registry)
  have gone: "subscribers (Unsubscribe d c) c = None"
    by (simp add: Unsubscribe_def unsubscribe_def Let_def split: option.splits)
  have "exec d (CallUnsubscribe c) = Inr (Unsubscribe d c)" by simp
  with assms have "reachable (Unsubscribe d c)" by (rule reachable_exec)
  then have "registry_agrees (Unsubscribe d c) \<and> registry_made (Unsubscribe d c)"
    by (rule reachable_registry)
  with gone have "Unsubscribe (Unsubscribe d c) c = Unsubscribe d c"
    by (simp add: Unsubscribe_def unsubscribe_absent)
  with inv gone show ?thesis
    by (simp add: Unsubscribe_def unsubscribe_absent)
qed

theorem Unsubscribe_unregistered_witness:
  "reachable (one_listener 0 ''/a/'') \<and>
   subscribers (one_listener 0 ''/a/'') (Chan 7) = None \<and>
   Unsubscribe (one_listener 0 ''/a/'') (Chan 7) = one_listener 0 ''/a/'' \<and>
   subscribers (one_listener 0 ''/a/'') NilChan = None \<and>
   Unsubscribe (one_listener 0 ''/a/'') NilChan = one_listener 0 ''/a/'' \<and>
   Unsubscribe (Unsubscribe (one_listener 0 ''/a/'') (Chan 0)) (Chan 0)
     = Unsubscribe (one_listener 0 ''/a/'') (Chan 0)"
proof -
  have v: "validate ''/a/'' = Inr ()" by (simp add: validate_def)
  have r: "reachable (one_listener 0 ''/a/'')"
    by (rule reachable_one_listener [OF v]) simp
  have n: "subscribers (one_listener 0 ''/a/'') (Chan 7) = None"
    "subscribers (one_listener 0 ''/a/'') NilChan = None"
    by (simp_all add: one_listener_eq [OF v])
  from Unsubscribe_unregistered [OF r, of "Chan 7"] Unsubscribe_unregistered [OF r, of NilChan]
    Unsubscribe_unregistered [OF r, of "Chan 0"] r n
  show ?thesis by simp
qed

section \<open>Which subscribers a mutation reaches\<close>

lemma Set_eq:
  assumes "validate key = Inr ()"
  shows "Set d key v = Inr (mutated d key \<lparr>val = v, revision = current_revision d key + 1\<rparr>)"
proof -
  from assms have "length key \<noteq> 0" by (simp add: validate_Inr)
  then show ?thesis by (simp add: Set_def assms set_d_eq)
qed

lemma matched_one_listener:
  assumes "validate p = Inr ()" and "0 \<le> b \<and> b \<le> 64"
  shows "Chan i \<in> matched (one_listener b p) key \<longleftrightarrow> i = 0 \<and> p \<in> set (checked key)"
  by (auto simp add: matched_def chans_at_def one_listener_eq [OF assms] split: if_splits)

text \<open>
  Claim C3 says that for the key \<open>/a/b/c\<close> the prefixes checked are \<open>/a/b/c\<close>, \<open>/a/b/\<close>,
  \<open>/a/\<close> and that the root \<open>/\<close> is never checked. The loop goes one step further:
  the slice \<open>/a\<close> of \<open>/a/\<close> still holds a slash, at index 0, so \<open>part\<close> becomes \<open>/\<close> and
  is looked up as well. On the new database of main.go, the channel that \<open>Subscribe\<close>
  registers at \<open>/\<close> has the event of a \<open>Set\<close> of \<open>/a/b/c\<close> in its buffer afterwards.
\<close>

theorem root_prefix_counterexample:
  "''/'' \<in> set (checked ''/a/b/c'') \<and>
   checked ''/a/b/c'' \<noteq> [''/a/b/c'', ''/a/b/'', ''/a/''] \<and>
   Subscribe (NewDatabase 0 0) ''/'' = Inr (one_listener 0 ''/'', Chan 0) \<and>
   Set (one_listener 0 ''/'') ''/a/b/c'' ''1''
     = Inr (mutated (one_listener 0 ''/'') ''/a/b/c'' \<lparr>val = ''1'', revision = 0\<rparr>) \<and>
   queues (mutated (one_listener 0 ''/'') ''/a/b/c'' \<lparr>val = ''1'', revision = 0\<rparr>) 0
     = [\<lparr>Key = ''/a/b/c'', Value = ''1'', Revision = 0\<rparr>]"
proof -
  have v: "validate ''/'' = Inr ()" and k: "validate ''/a/b/c'' = Inr ()"
    by (simp_all add: validate_def)
  have "Chan 0 \<in> matched (one_listener 0 ''/'') ''/a/b/c''"
    by (simp add: matched_one_listener [OF v] checked_abc)
  moreover have "current_revision (one_listener 0 ''/'') ''/a/b/c'' = - 1"
    by (simp add: current_revision_def one_listener_eq [OF v])
  moreover have "caps (one_listener 0 ''/'') 0 = 64" "queues (one_listener 0 ''/'') 0 = []"
    by (simp_all add: one_listener_eq [OF v])
  ultimately show ?thesis
    by (simp add: checked_abc Subscribe_new [OF v] Set_eq [OF k] queues_mutated try_send_def
        event_def)
qed

text \<open>
  Claim C3, amended. For a key that passes \<open>validate\<close>, \<open>notify\<close> returns after visiting
  the prefixes \<open>checked key\<close> in order. The first is the full key; the ones after it are
  the key cut just after each slash that lies before its final byte, from the last
  such slash down to the first, so each of them ends in a slash and the last is the
  root \<open>/\<close>, which is checked for every key. For the key \<open>/a/b/c\<close> the prefixes checked
  are \<open>/a/b/c\<close>, \<open>/a/b/\<close>, \<open>/a/\<close>, \<open>/\<close>.
\<close>

theorem notify_walks_prefixes:
  assumes "validate key = Inr ()"
  shows "notify d key e = Inr (fst (fold (visit (event key e)) (checked key) (d, {}))) \<and>
    checked key = key # slash_prefixes key \<and>
    hd (checked key) = key \<and>
    (\<forall>p \<in> set (tl (checked key)). last p = CHR ''/'') \<and>
    last (checked key) = ''/'' \<and>
    checked ''/a/b/c'' = [''/a/b/c'', ''/a/b/'', ''/a/'', ''/'']"
proof -
  from assms have k: "length key \<noteq> 0" "key ! 0 = CHR ''/''"
    by (simp_all add: validate_Inr)
  from k(1) have "notify d key e = Inr (fst (fold (visit (event key e)) (checked key) (d, {})))"
    by (simp add: notify_def notify_loop_fold)
  moreover have "checked key = key # slash_prefixes key"
    by (rule checked_slash_prefixes)
  moreover have "hd (checked key) = key"
    by (rule hd_checked)
  moreover have "\<forall>p \<in> set (tl (checked key)). last p = CHR ''/''"
    using tl_checked_slash by blast
  moreover from k have "last (checked key) = ''/''"
    by (rule last_checked)
  moreover note checked_abc
  ultimately show ?thesis
    by blast
qed

theorem notify_walks_prefixes_witness:
  "validate ''/a/b/c'' = Inr () \<and>
   notify (one_listener 0 ''/a/'') ''/a/b/c'' \<lparr>val = ''1'', revision = 0\<rparr>
     = Inr (fst (fold (visit (event ''/a/b/c'' \<lparr>val = ''1'', revision = 0\<rparr>))
         [''/a/b/c'', ''/a/b/'', ''/a/'', ''/''] (one_listener 0 ''/a/'', {}))) \<and>
   ''/a/b/c'' # slash_prefixes ''/a/b/c'' = [''/a/b/c'', ''/a/b/'', ''/a/'', ''/''] \<and>
   last (checked ''/a/b/c'') = ''/''"
proof -
  have k: "validate ''/a/b/c'' = Inr ()"
    by (simp add: validate_def)
  from notify_walks_prefixes [OF k, of "one_listener 0 ''/a/''" "\<lparr>val = ''1'', revision = 0\<rparr>"]
  have n: "notify (one_listener 0 ''/a/'') ''/a/b/c'' \<lparr>val = ''1'', revision = 0\<rparr>
      = Inr (fst (fold (visit (event ''/a/b/c'' \<lparr>val = ''1'', revision = 0\<rparr>))
          (checked ''/a/b/c'') (one_listener 0 ''/a/'', {})))"
    and c: "checked ''/a/b/c'' = ''/a/b/c'' # slash_prefixes ''/a/b/c''"
    and l: "last (checked ''/a/b/c'') = ''/''"
    and x: "checked ''/a/b/c'' = [''/a/b/c'', ''/a/b/'', ''/a/'', ''/'']"
    by blast+
  from c x have "''/a/b/c'' # slash_prefixes ''/a/b/c'' = [''/a/b/c'', ''/a/b/'', ''/a/'', ''/'']"
    by (rule trans [OF sym])
  with k n [unfolded x] l show ?thesis
    by blast
qed

lemma matched_registered:
  assumes "registry_agrees d" and "subscribers d c = Some s"
  shows "c \<in> matched d key \<longleftrightarrow> path s \<in> set (checked key)"
  using assms by (auto simp add: matched_def registry_agrees_def)

lemma checked_exact:
  assumes "length p \<noteq> 0" and "last p \<noteq> CHR ''/''"
  shows "p \<in> set (checked key) \<longleftrightarrow> p = key"
proof
  assume "p \<in> set (checked key)"
  moreover have "checked key = hd (checked key) # tl (checked key)"
    using checked_not_Nil by simp
  ultimately have "p = key \<or> p \<in> set (tl (checked key))"
    by (metis hd_checked set_ConsD)
  with assms(2) show "p = key"
    using tl_checked_slash by blast
next
  assume "p = key"
  moreover have "hd (checked key) \<in> set (checked key)"
    using checked_not_Nil by simp
  ultimately show "p \<in> set (checked key)"
    by (simp add: hd_checked)
qed

lemma checked_examples:
  "checked ''/a/b'' = [''/a/b'', ''/a/'', ''/'']"
  "checked ''/a/c'' = [''/a/c'', ''/a/'', ''/'']"
  "checked ''/x'' = [''/x'', ''/'']"
  by (simp_all add: checked.simps LastIndexByte_def)

text \<open>
  Claim C4. Take a reachable state, a channel registered in it, with room in its
  buffer, and a successful mutation of a key (a \<open>Set\<close>, or an \<open>Update\<close> that returns
  true). A channel registered at \<open>/a/\<close> receives the event of the mutation, once, when
  the key is \<open>/a/b\<close>, \<open>/a/c\<close> or \<open>/a/b/c\<close>, and nothing when the key is \<open>/x\<close>. A channel
  registered at \<open>/a/b\<close> receives the event when the key is \<open>/a/b\<close>, and nothing for
  any other key, \<open>/a/b/c\<close> among them.
\<close>

theorem hierarchical_delivery:
  assumes "reachable d" and "subscribers d (Chan i) = Some s"
    and "length (queues d i) < caps d i"
    and "mutation_of key d c" and "exec d c = Inr d1"
  shows "(path s = ''/a/'' \<and> key \<in> {''/a/b'', ''/a/c'', ''/a/b/c''} \<longrightarrow>
      queues d1 i = queues d i @ [event key (fst (get d1 key))]) \<and>
    (path s = ''/a/'' \<and> key = ''/x'' \<longrightarrow> queues d1 i = queues d i) \<and>
    (path s = ''/a/b'' \<and> key = ''/a/b'' \<longrightarrow>
      queues d1 i = queues d i @ [event key (fst (get d1 key))]) \<and>
    (path s = ''/a/b'' \<and> key \<noteq> ''/a/b'' \<longrightarrow> queues d1 i = queues d i)"
proof -
  from assms(1) have "registry_agrees d"
    by (simp add: reachable_registry)
  then have m: "Chan i \<in> matched d key \<longleftrightarrow> path s \<in> set (checked key)"
    using assms(2) by (rule matched_registered)
  from exec_mutation [OF assms(4) assms(5)] obtain v
    where d1: "d1 = mutated d key \<lparr>val = v, revision = current_revision d key + 1\<rparr>" ..
  have q: "queues d1 i =
      (if path s \<in> set (checked key) then queues d i @ [event key (fst (get d1 key))]
       else queues d i)"
    using assms(3) m by (simp add: d1 queues_mutated try_send_def)
  have exact: "''/a/b'' \<in> set (checked key) \<longleftrightarrow> ''/a/b'' = key"
    by (rule checked_exact) simp_all
  show ?thesis
    using exact by (auto simp add: q checked_examples checked_abc)
qed

theorem hierarchical_delivery_witness:
  "reachable (one_listener 0 ''/a/'') \<and>
   subscribers (one_listener 0 ''/a/'') (Chan 0) = Some \<lparr>path = ''/a/'', ch = Chan 0\<rparr> \<and>
   length (queues (one_listener 0 ''/a/'') 0) < caps (one_listener 0 ''/a/'') 0 \<and>
   mutation_of ''/a/b/c'' (one_listener 0 ''/a/'') (CallSet ''/a/b/c'' ''1'') \<and>
   exec (one_listener 0 ''/a/'') (CallSet ''/a/b/c'' ''1'')
     = Inr (mutated (one_listener 0 ''/a/'') ''/a/b/c'' \<lparr>val = ''1'', revision = 0\<rparr>) \<and>
   queues (mutated (one_listener 0 ''/a/'') ''/a/b/c'' \<lparr>val = ''1'', revision = 0\<rparr>) 0
     = [\<lparr>Key = ''/a/b/c'', Value = ''1'', Revision = 0\<rparr>] \<and>
   reachable (one_listener 0 ''/a/b'') \<and>
   subscribers (one_listener 0 ''/a/b'') (Chan 0) = Some \<lparr>path = ''/a/b'', ch = Chan 0\<rparr> \<and>
   length (queues (one_listener 0 ''/a/b'') 0) < caps (one_listener 0 ''/a/b'') 0 \<and>
   mutation_of ''/a/b/c'' (one_listener 0 ''/a/b'') (CallSet ''/a/b/c'' ''1'') \<and>
   exec (one_listener 0 ''/a/b'') (CallSet ''/a/b/c'' ''1'')
     = Inr (mutated (one_listener 0 ''/a/b'') ''/a/b/c'' \<lparr>val = ''1'', revision = 0\<rparr>) \<and>
   queues (mutated (one_listener 0 ''/a/b'') ''/a/b/c'' \<lparr>val = ''1'', revision = 0\<rparr>) 0 = []"
proof -
  let ?e = "\<lparr>val = ''1'', revision = 0 :: 64 word\<rparr>"
  have v: "validate ''/a/'' = Inr ()" and w: "validate ''/a/b'' = Inr ()"
    and k: "validate ''/a/b/c'' = Inr ()"
    by (simp_all add: validate_def)
  have r: "reachable (one_listener 0 ''/a/'')" and r': "reachable (one_listener 0 ''/a/b'')"
    by (rule reachable_one_listener [OF v], simp, rule reachable_one_listener [OF w], simp)
  have s: "subscribers (one_listener 0 ''/a/'') (Chan 0) = Some \<lparr>path = ''/a/'', ch = Chan 0\<rparr>"
    and s': "subscribers (one_listener 0 ''/a/b'') (Chan 0) = Some \<lparr>path = ''/a/b'', ch = Chan 0\<rparr>"
    by (simp_all add: one_listener_eq [OF v] one_listener_eq [OF w])
  have l: "length (queues (one_listener 0 ''/a/'') 0) < caps (one_listener 0 ''/a/'') 0"
    and l': "length (queues (one_listener 0 ''/a/b'') 0) < caps (one_listener 0 ''/a/b'') 0"
    by (simp_all add: one_listener_eq [OF v] one_listener_eq [OF w])
  have m: "mutation_of ''/a/b/c'' (one_listener 0 ''/a/'') (CallSet ''/a/b/c'' ''1'')"
    and m': "mutation_of ''/a/b/c'' (one_listener 0 ''/a/b'') (CallSet ''/a/b/c'' ''1'')"
    by simp_all
  have x: "exec (one_listener 0 ''/a/'') (CallSet ''/a/b/c'' ''1'')
      = Inr (mutated (one_listener 0 ''/a/'') ''/a/b/c'' ?e)"
    by (simp add: Set_eq [OF k] current_revision_def one_listener_eq [OF v])
  have x': "exec (one_listener 0 ''/a/b'') (CallSet ''/a/b/c'' ''1'')
      = Inr (mutated (one_listener 0 ''/a/b'') ''/a/b/c'' ?e)"
    by (simp add: Set_eq [OF k] current_revision_def one_listener_eq [OF w])
  have q: "queues (one_listener 0 ''/a/'') 0 = []" "queues (one_listener 0 ''/a/b'') 0 = []"
    by (simp_all add: one_listener_eq [OF v] one_listener_eq [OF w])
  from hierarchical_delivery [OF r s l m x] hierarchical_delivery [OF r' s' l' m' x']
    r r' s s' l l' m m' x x' q
  show ?thesis by (simp add: event_def)
qed

lemma twice_registered_at:
  "chans_at twice_registered ''/a/'' = {Chan 0}"
  "chans_at twice_registered ''/a/b/'' = {Chan 0}"
  "queues twice_registered 0 = []"
  "caps twice_registered 0 = 64"
  by (simp_all add: twice_registered_def subscribe_def make_chan_def maxChanCap_def chans_at_def
      NewDatabase_def)

text \<open>
  Claim C5. One run of \<open>notify\<close>, in any state and for any non-empty key, returns and
  leaves the buffer of a channel as it was or with the one event appended: no channel
  gets the event twice, wherever it is registered. A channel that is in the sets of
  both \<open>/a/\<close> and \<open>/a/b/\<close> and has room gets exactly one event for the key \<open>/a/b/c\<close>.
\<close>

theorem notify_once_per_handle:
  assumes "length key \<noteq> 0"
  shows "\<exists>d1. notify d key e = Inr d1 \<and>
    (queues d1 i = queues d i \<or> queues d1 i = queues d i @ [event key e]) \<and>
    (key = ''/a/b/c'' \<and> Chan i \<in> chans_at d ''/a/'' \<and> Chan i \<in> chans_at d ''/a/b/'' \<and>
       length (queues d i) < caps d i
     \<longrightarrow> queues d1 i = queues d i @ [event key e])"
  using assms
  by (auto simp add: notify_delivers queues_deliver try_send_def matched_def checked_abc)

theorem notify_once_per_handle_witness:
  "length ''/a/b/c'' \<noteq> 0 \<and>
   Chan 0 \<in> chans_at twice_registered ''/a/'' \<and>
   Chan 0 \<in> chans_at twice_registered ''/a/b/'' \<and>
   length (queues twice_registered 0) < caps twice_registered 0 \<and>
   (\<exists>d1. notify twice_registered ''/a/b/c'' \<lparr>val = ''1'', revision = 0\<rparr> = Inr d1 \<and>
     queues d1 0 = [\<lparr>Key = ''/a/b/c'', Value = ''1'', Revision = 0\<rparr>])"
  using notify_once_per_handle [of "''/a/b/c''" twice_registered "\<lparr>val = ''1'', revision = 0\<rparr>" 0]
  by (auto simp add: twice_registered_at event_def)

lemma matched_deliver [simp]: "matched (deliver d A u) key = matched d key"
  by (simp add: matched_def)

lemma notify_all_queue:
  assumes "\<forall>(k, e) \<in> set evs. length k \<noteq> 0 \<and> Chan i \<in> matched d k"
    and "length (queues d i) \<le> caps d i"
  shows "\<exists>d1. notify_all d evs = Inr d1 \<and>
    queues d1 i = take (caps d i) (queues d i @ map (\<lambda>(k, e). event k e) evs)"
  using assms
proof (induction evs arbitrary: d)
  case Nil
  then show ?case by simp
next
  case (Cons ke evs)
  obtain k e where ke: "ke = (k, e)" by (cases ke)
  let ?d = "deliver d (matched d k) (event k e)"
  from Cons.prems ke have k: "length k \<noteq> 0" and mk: "Chan i \<in> matched d k"
    by auto
  have q: "queues ?d i = try_send (caps d i) (queues d i) (event k e)"
    using mk by (simp add: queues_deliver)
  have "\<forall>(k, e) \<in> set evs. length k \<noteq> 0 \<and> Chan i \<in> matched ?d k"
    using Cons.prems(1) by auto
  moreover have "length (queues ?d i) \<le> caps ?d i"
    using Cons.prems(2) by (simp add: q try_send_def)
  ultimately obtain d1 where d1: "notify_all ?d evs = Inr d1"
    and q1: "queues d1 i = take (caps ?d i) (queues ?d i @ map (\<lambda>(k, e). event k e) evs)"
    using Cons.IH [of ?d] by blast
  have "take (caps d i) (try_send (caps d i) (queues d i) (event k e) @ map (\<lambda>(k, e). event k e) evs)
      = take (caps d i) (queues d i @ event k e # map (\<lambda>(k, e). event k e) evs)"
    using Cons.prems(2) by (auto simp add: try_send_def take_Cons')
  with d1 q1 q k ke show ?case
    by (simp add: notify_delivers)
qed

text \<open>
  Claim C6. The send of \<open>notify\<close> does not wait: for a non-empty key \<open>notify\<close> returns,
  it changes nothing but buffers, and each matched channel on its own gets the event
  appended when its buffer has room and keeps its buffer when it is full. A channel
  made by \<open>Subscribe\<close> starts empty with capacity \<open>d.buflen\<close>. For a channel of capacity
  \<open>C\<close> with an empty buffer that is matched by each of \<open>C + 1\<close> events, with no
  receive in between, the buffer ends up holding the first \<open>C\<close> events: the last one
  is dropped, and only that one.
\<close>

theorem full_queue_drops:
  assumes "length key \<noteq> 0"
  shows "(\<exists>d1. notify d key e = Inr d1 \<and> d1\<lparr>queues := queues d\<rparr> = d \<and>
      (\<forall>j. queues d1 j =
        (if Chan j \<in> matched d key \<and> length (queues d j) < caps d j
         then queues d j @ [event key e] else queues d j))) \<and>
    (\<forall>p d0 j. Subscribe d p = Inr (d0, Chan j) \<longrightarrow>
      caps d0 j = nat (buflen d) \<and> queues d0 j = []) \<and>
    ((\<forall>(k, e) \<in> set evs. length k \<noteq> 0 \<and> Chan i \<in> matched d k) \<and> queues d i = [] \<and>
      length evs = caps d i + 1 \<longrightarrow>
      (\<exists>d1. notify_all d evs = Inr d1 \<and>
        queues d1 i = butlast (map (\<lambda>(k, e). event k e) evs) \<and>
        length (queues d1 i) = caps d i))"
proof -
  have one: "\<exists>d1. notify d key e = Inr d1 \<and> d1\<lparr>queues := queues d\<rparr> = d \<and>
      (\<forall>j. queues d1 j =
        (if Chan j \<in> matched d key \<and> length (queues d j) < caps d j
         then queues d j @ [event key e] else queues d j))"
    using assms by (simp add: notify_delivers queues_deliver try_send_def deliver_def)
  have made: "caps d0 j = nat (buflen d) \<and> queues d0 j = []"
    if "Subscribe d p = Inr (d0, Chan j)" for p d0 j
    using that
    by (auto simp add: Subscribe_def make_chan_def subscribe_def split: sum.splits if_splits)
  have many: "\<exists>d1. notify_all d evs = Inr d1 \<and>
        queues d1 i = butlast (map (\<lambda>(k, e). event k e) evs) \<and>
        length (queues d1 i) = caps d i"
    if all: "\<forall>(k, e) \<in> set evs. length k \<noteq> 0 \<and> Chan i \<in> matched d k"
      and empty: "queues d i = []" and len: "length evs = caps d i + 1"
  proof -
    from empty have "length (queues d i) \<le> caps d i" by simp
    from notify_all_queue [OF all this] obtain d1 where d1: "notify_all d evs = Inr d1"
      and q: "queues d1 i = take (caps d i) (queues d i @ map (\<lambda>(k, e). event k e) evs)"
      by blast
    from len have "take (caps d i) (map (\<lambda>(k, e). event k e) evs)
        = butlast (map (\<lambda>(k, e). event k e) evs)"
      by (simp add: butlast_conv_take)
    with d1 q empty len show ?thesis by simp
  qed
  from one made many show ?thesis by blast
qed


theorem full_queue_drops_witness:
  "length ''/s/x'' \<noteq> 0 \<and>
   Subscribe (NewDatabase 2 0) ''/s/'' = Inr (one_listener 2 ''/s/'', Chan 0) \<and>
   caps (one_listener 2 ''/s/'') 0 = 2 \<and>
   queues (one_listener 2 ''/s/'') 0 = [] \<and>
   length [(''/s/x'', \<lparr>val = ''1'', revision = 0\<rparr>), (''/s/y'', \<lparr>val = ''2'', revision = 0\<rparr>),
       (''/s/x'', \<lparr>val = ''3'', revision = 1 :: 64 word\<rparr>)] = caps (one_listener 2 ''/s/'') 0 + 1 \<and>
   (\<exists>d1. notify_all (one_listener 2 ''/s/'')
        [(''/s/x'', \<lparr>val = ''1'', revision = 0\<rparr>), (''/s/y'', \<lparr>val = ''2'', revision = 0\<rparr>),
         (''/s/x'', \<lparr>val = ''3'', revision = 1\<rparr>)] = Inr d1 \<and>
      queues d1 0 = [\<lparr>Key = ''/s/x'', Value = ''1'', Revision = 0\<rparr>,
        \<lparr>Key = ''/s/y'', Value = ''2'', Revision = 0\<rparr>])"
proof -
  let ?d = "one_listener 2 ''/s/''"
  let ?evs = "[(''/s/x'', \<lparr>val = ''1'', revision = 0\<rparr>), (''/s/y'', \<lparr>val = ''2'', revision = 0\<rparr>),
       (''/s/x'', \<lparr>val = ''3'', revision = 1 :: 64 word\<rparr>)]"
  have v: "validate ''/s/'' = Inr ()" by (simp add: validate_def)
  have b: "(0 :: int) \<le> 2 \<and> (2 :: int) \<le> 64" by simp
  have c: "caps ?d 0 = 2" and q: "queues ?d 0 = []"
    by (simp_all add: one_listener_eq [OF v b])
  have ch: "checked ''/s/x'' = [''/s/x'', ''/s/'', ''/'']" "checked ''/s/y'' = [''/s/y'', ''/s/'', ''/'']"
    by (simp_all add: checked.simps LastIndexByte_def)
  have m: "\<forall>(k, e) \<in> set ?evs. length k \<noteq> 0 \<and> Chan 0 \<in> matched ?d k"
    by (simp add: matched_one_listener [OF v b] ch)
  have l: "length ?evs = caps ?d 0 + 1" by (simp add: c)
  from full_queue_drops [of "''/s/x''" ?d "\<lparr>val = ''1'', revision = 0\<rparr>" ?evs 0] m q l
  have "\<exists>d1. notify_all ?d ?evs = Inr d1 \<and>
      queues d1 0 = butlast (map (\<lambda>(k, e). event k e) ?evs)"
    by auto
  then show ?thesis
    using Subscribe_new [OF v b] c q by (simp add: event_def)
qed

text \<open>
  Claim C7. \<open>Delete\<close> is served for every string, valid key or not, and has no failing
  branch. Afterwards the key has no entry, and \<open>Get\<close> reports it as not found; the
  entries of all other keys, the buffers of all channels and both indexes of the
  registry are as before, and so is the whole state when the key had no entry.
\<close>

theorem Delete_silent:
  "exec d (CallDelete key) = Inr (Delete d key) \<and>
   values_map (Delete d key) key = None \<and>
   (\<forall>k. k \<noteq> key \<longrightarrow> values_map (Delete d key) k = values_map d k) \<and>
   (values_map d key = None \<longrightarrow> Delete d key = d) \<and>
   queues (Delete d key) = queues d \<and>
   subscriptions (Delete d key) = subscriptions d \<and>
   subscribers (Delete d key) = subscribers d \<and>
   (Delete d key)\<lparr>values_map := values_map d\<rparr> = d \<and>
   (validate key = Inr () \<longrightarrow> Get (Delete d key) key = Inr ([], 0, False))"
  by (simp add: Delete_def fun_upd_idem Get_def get_def zero_entry_def)

theorem Delete_silent_witness:
  "values_map (one_listener 0 ''/fib'') ''/fib'' = None \<and>
   Delete (one_listener 0 ''/fib'') ''/fib'' = one_listener 0 ''/fib'' \<and>
   ''/a'' \<noteq> ''/fib'' \<and>
   values_map (Delete (mutated (one_listener 0 ''/fib'') ''/a'' \<lparr>val = ''1'', revision = 0\<rparr>) ''/fib'') ''/a''
     = Some \<lparr>val = ''1'', revision = 0\<rparr> \<and>
   values_map (Delete (mutated (one_listener 0 ''/fib'') ''/fib'' \<lparr>val = ''1'', revision = 0\<rparr>) ''/fib'') ''/fib''
     = None \<and>
   validate ''/fib'' = Inr () \<and>
   Get (Delete (mutated (one_listener 0 ''/fib'') ''/fib'' \<lparr>val = ''1'', revision = 0\<rparr>) ''/fib'') ''/fib''
     = Inr ([], 0, False)"
proof -
  have v: "validate ''/fib'' = Inr ()" by (simp add: validate_def)
  have n: "values_map (one_listener 0 ''/fib'') ''/fib'' = None"
    by (simp add: one_listener_eq [OF v])
  from Delete_silent [of "one_listener 0 ''/fib''" "''/fib''"]
    Delete_silent [of "mutated (one_listener 0 ''/fib'') ''/a'' \<lparr>val = ''1'', revision = 0\<rparr>" "''/fib''"]
    Delete_silent [of "mutated (one_listener 0 ''/fib'') ''/fib'' \<lparr>val = ''1'', revision = 0\<rparr>" "''/fib''"]
    n v
  show ?thesis by simp
qed

text \<open>
  Claim C8. \<open>validate\<close> panics exactly on the empty string and on strings whose first
  byte is not a slash, and then \<open>Get\<close>, \<open>Set\<close>, \<open>Update\<close> and \<open>Subscribe\<close> panic with it.
  On every other string, whatever follows the first slash, \<open>Get\<close> returns its normal
  result. So do \<open>Set\<close>, \<open>Update\<close> and \<open>Subscribe\<close> on a database whose buffer length is
  from 0 to the default 64, as that of \<open>NewDatabase(0, 0)\<close> in main.go is: they leave
  the buffer length as it is, so the \<open>Subscribe\<close> of the expiry task that \<open>Set\<close> or
  \<open>Update\<close> starts for the same key returns as well. (With a buffer length that
  \<open>make\<close> refuses, \<open>Subscribe\<close> panics on every path, in a caller and in an expiry task.)
\<close>

theorem validate_guard:
  "(validate key = Inl InvalidKey \<longleftrightarrow> length key = 0 \<or> key ! 0 \<noteq> CHR ''/'') \<and>
   (length key = 0 \<or> key ! 0 \<noteq> CHR ''/'' \<longrightarrow>
      Get d key = Inl InvalidKey \<and> Set d key v = Inl InvalidKey \<and>
      Update d key v r = Inl InvalidKey \<and> Subscribe d key = Inl InvalidKey) \<and>
   (length key \<noteq> 0 \<and> key ! 0 = CHR ''/'' \<longrightarrow> (\<exists>x n ok. Get d key = Inr (x, n, ok))) \<and>
   (length key \<noteq> 0 \<and> key ! 0 = CHR ''/'' \<and> 0 \<le> buflen d \<and> buflen d \<le> defaultBuflen \<longrightarrow>
      (\<exists>d1. Set d key v = Inr d1 \<and> buflen d1 = buflen d) \<and>
      (\<exists>d1 ok. Update d key v r = Inr (d1, ok) \<and> buflen d1 = buflen d) \<and>
      (\<exists>d1 c. Subscribe d key = Inr (d1, c) \<and> buflen d1 = buflen d))"
proof -
  have bad: "Get d key = Inl InvalidKey \<and> Set d key v = Inl InvalidKey \<and>
      Update d key v r = Inl InvalidKey \<and> Subscribe d key = Inl InvalidKey"
    if "length key = 0 \<or> key ! 0 \<noteq> CHR ''/''"
  proof -
    from that have "validate key = Inl InvalidKey" by (simp add: validate_def)
    then show ?thesis by (simp add: Get_def Set_def Update_def Subscribe_def)
  qed
  have found: "\<exists>x n ok. Get d key = Inr (x, n, ok)"
    if "length key \<noteq> 0 \<and> key ! 0 = CHR ''/''"
  proof -
    from that have "validate key = Inr ()" by (simp add: validate_def)
    then show ?thesis by (simp add: Get_def split: prod.splits)
  qed
  have good: "(\<exists>d1. Set d key v = Inr d1 \<and> buflen d1 = buflen d) \<and>
      (\<exists>d1 ok. Update d key v r = Inr (d1, ok) \<and> buflen d1 = buflen d) \<and>
      (\<exists>d1 c. Subscribe d key = Inr (d1, c) \<and> buflen d1 = buflen d)"
    if "length key \<noteq> 0 \<and> key ! 0 = CHR ''/'' \<and> 0 \<le> buflen d \<and> buflen d \<le> defaultBuflen"
  proof -
    from that have ok: "validate key = Inr ()" and len: "length key \<noteq> 0"
      by (simp_all add: validate_def)
    from that have range: "\<not> buflen d < 0" "\<not> maxChanCap < buflen d"
      by (simp_all add: defaultBuflen_def maxChanCap_def)
    have "\<exists>d1. Set d key v = Inr d1 \<and> buflen d1 = buflen d"
      by (simp add: Set_eq [OF ok])
    moreover have "\<exists>d1 ok. Update d key v r = Inr (d1, ok) \<and> buflen d1 = buflen d"
      by (auto simp add: Update_def ok update_eq [OF len])
    moreover have "\<exists>d1 c. Subscribe d key = Inr (d1, c) \<and> buflen d1 = buflen d"
      using range by (simp add: Subscribe_def ok make_chan_def subscribe_def)
    ultimately show ?thesis by blast
  qed
  have "validate key = Inl InvalidKey \<longleftrightarrow> length key = 0 \<or> key ! 0 \<noteq> CHR ''/''"
    by (simp add: validate_def)
  with bad found good show ?thesis by blast
qed

theorem validate_guard_witness:
  "validate [] = Inl InvalidKey \<and> validate ''a/b'' = Inl InvalidKey \<and>
   Get (NewDatabase 0 0) ''a/b'' = Inl InvalidKey \<and>
   Subscribe (NewDatabase 0 0) [] = Inl InvalidKey \<and>
   length ''/a//b/'' \<noteq> 0 \<and> ''/a//b/'' ! 0 = CHR ''/'' \<and>
   0 \<le> buflen (NewDatabase 0 0) \<and> buflen (NewDatabase 0 0) \<le> defaultBuflen \<and>
   Get (NewDatabase 0 0) ''/a//b/'' = Inr ([], 0, False) \<and>
   (\<exists>d1. Set (NewDatabase 0 0) ''/a//b/'' ''1'' = Inr d1 \<and> buflen d1 = 64) \<and>
   (\<exists>d1 ok. Update (NewDatabase 0 0) ''/a//b/'' ''1'' 0 = Inr (d1, ok) \<and> buflen d1 = 64) \<and>
   (\<exists>d1 c. Subscribe (NewDatabase 0 0) ''/a//b/'' = Inr (d1, c) \<and> buflen d1 = 64)"
proof -
  have g: "Get (NewDatabase 0 0) ''/a//b/'' = Inr ([], 0, False)"
    by (simp add: Get_def validate_def get_def NewDatabase_def zero_entry_def)
  have b: "buflen (NewDatabase 0 0) = 64"
    by (simp add: NewDatabase_def defaultBuflen_def)
  from validate_guard [of "[]" "NewDatabase 0 0" "''1''" 0]
    validate_guard [of "''a/b''" "NewDatabase 0 0" "''1''" 0]
    validate_guard [of "''/a//b/''" "NewDatabase 0 0" "''1''" 0] g b
  show ?thesis by (simp add: defaultBuflen_def)
qed

end
